theory Spec2Isabelle
  imports Main "HOL-Library.Word" "HOL-Library.Sublist"
begin

unbundle bit_operations_syntax

section \<open>Package sqlannotation: keyspace-id annotations of DML statements\<close>

text \<open>
  A Go \<open>string\<close> is a sequence of bytes; it is modelled as \<open>string\<close> (a list of
  \<open>char\<close>, each one byte). A \<open>[]byte\<close> is a list of 8-bit words, a \<open>rune\<close> a natural
  number (its code point). An index result of \<open>-1\<close> is \<open>None\<close>.
\<close>

type_synonym byte = "8 word"

subsection \<open>Library functions used by the package\<close>

subsubsection \<open>strings.Index\<close>

text \<open>The index of the leftmost instance of \<open>sep\<close> in \<open>s\<close>, \<open>None\<close> for Go's \<open>-1\<close>.\<close>

fun Index :: "string \<Rightarrow> string \<Rightarrow> nat option" where
  "Index [] sep = (if sep = [] then Some 0 else None)"
| "Index (c # cs) sep =
     (if prefix sep (c # cs) then Some 0 else map_option Suc (Index cs sep))"

subsubsection \<open>encoding/hex\<close>

definition hextable :: string where
  "hextable = ''0123456789abcdef''"

text \<open>\<open>dst[i*2] = hextable[v>>4]; dst[i*2+1] = hextable[v&0x0f]\<close> for every byte of the source.\<close>

fun EncodeToString :: "byte list \<Rightarrow> string" where
  "EncodeToString [] = []"
| "EncodeToString (v # src) =
     hextable ! unat (drop_bit 4 v) # hextable ! unat (v AND 0x0f) # EncodeToString src"

datatype hex_error = ErrLength | InvalidByteError char

text \<open>\<open>fromHexChar\<close> returns a byte and an ok flag; a false flag is \<open>None\<close>.\<close>

definition fromHexChar :: "char \<Rightarrow> byte option" where
  "fromHexChar c =
     (let n = (of_char c :: nat) in
      if of_char CHR ''0'' \<le> n \<and> n \<le> of_char CHR ''9'' then Some (word_of_nat (n - of_char CHR ''0''))
      else if of_char CHR ''a'' \<le> n \<and> n \<le> of_char CHR ''f'' then Some (word_of_nat (n - of_char CHR ''a'' + 10))
      else if of_char CHR ''A'' \<le> n \<and> n \<le> of_char CHR ''F'' then Some (word_of_nat (n - of_char CHR ''A'' + 10))
      else None)"

text \<open>The loop of \<open>hex.Decode\<close>, two characters for each byte: \<open>dst[i] = (a << 4) | b\<close>.\<close>

fun Decode_loop :: "string \<Rightarrow> hex_error + byte list" where
  "Decode_loop (c1 # c2 # cs) =
     (case fromHexChar c1 of
        None \<Rightarrow> Inl (InvalidByteError c1)
      | Some a \<Rightarrow>
          (case fromHexChar c2 of
             None \<Rightarrow> Inl (InvalidByteError c2)
           | Some b \<Rightarrow>
               (case Decode_loop cs of
                  Inl e \<Rightarrow> Inl e
                | Inr dst \<Rightarrow> Inr ((push_bit 4 a OR b) # dst))))"
| "Decode_loop cs = Inr []"

text \<open>\<open>hex.Decode\<close> refuses a source of odd length before it decodes anything.\<close>

definition Decode :: "string \<Rightarrow> hex_error + byte list" where
  "Decode src = (if length src mod 2 = 1 then Inl ErrLength else Decode_loop src)"

text \<open>\<open>hex.DecodeString\<close> returns nil bytes with the error, or the decoded bytes.\<close>

definition DecodeString :: "string \<Rightarrow> hex_error + byte list" where
  "DecodeString s = (case Decode s of Inl err \<Rightarrow> Inl err | Inr dst \<Rightarrow> Inr dst)"

text \<open>
  The text of a decoding error, as \<open>%v\<close> prints it: \<open>ErrLength\<close> is a fixed message, an
  invalid byte is printed with \<open>%#U\<close> (the code point in upper-case hexadecimal, then the
  quoted character when it is printable).
\<close>

definition upperhex :: string where
  "upperhex = ''0123456789ABCDEF''"

definition IsPrint_byte :: "nat \<Rightarrow> bool" where
  "IsPrint_byte r = ((0x20 \<le> r \<and> r \<le> 0x7E) \<or> (0xA1 \<le> r \<and> r \<le> 0xFF \<and> r \<noteq> 0xAD))"

definition utf8_of_byte :: "nat \<Rightarrow> string" where
  "utf8_of_byte r =
     (if r < 0x80 then [char_of r]
      else [char_of (0xC0 + r div 0x40), char_of (0x80 + r mod 0x40)])"

definition hex_error_Error :: "hex_error \<Rightarrow> string" where
  "hex_error_Error e =
     (case e of
        ErrLength \<Rightarrow> ''encoding/hex: odd length hex string''
      | InvalidByteError c \<Rightarrow>
          (let r = (of_char c :: nat) in
           ''encoding/hex: invalid byte: U+00'' @ [upperhex ! (r div 16), upperhex ! (r mod 16)]
             @ (if IsPrint_byte r then '' '' @ [CHR 0x27] @ utf8_of_byte r @ [CHR 0x27] else [])))"

subsubsection \<open>unicode/utf8 and unicode\<close>

definition RuneError :: nat where
  "RuneError = 0xFFFD"

text \<open>
  \<open>utf8.DecodeRuneInString\<close>: the first rune of the string and its width in bytes. An
  empty string gives \<open>(RuneError, 0)\<close>, an invalid or truncated encoding
  \<open>(RuneError, 1)\<close>. The second byte must lie in the range its first byte accepts
  (which excludes over-long encodings, surrogates and values above U+10FFFF), the later
  ones in \<open>0x80..0xBF\<close>.
\<close>

definition accept_lo :: "nat \<Rightarrow> nat" where
  "accept_lo b0 = (if b0 = 0xE0 then 0xA0 else if b0 = 0xF0 then 0x90 else 0x80)"

definition accept_hi :: "nat \<Rightarrow> nat" where
  "accept_hi b0 = (if b0 = 0xED then 0x9F else if b0 = 0xF4 then 0x8F else 0xBF)"

definition rune_size :: "nat \<Rightarrow> nat" where
  "rune_size b0 =
     (if b0 < 0x80 then 1
      else if b0 < 0xC2 then 0
      else if b0 < 0xE0 then 2
      else if b0 < 0xF0 then 3
      else if b0 < 0xF5 then 4
      else 0)"

definition DecodeRuneInString :: "string \<Rightarrow> nat \<times> nat" where
  "DecodeRuneInString s =
     (if s = [] then (RuneError, 0)
      else
        let n = length s; s0 = (of_char (s ! 0) :: nat); sz = rune_size s0 in
        if sz = 1 then (s0, 1)
        else if sz = 0 then (RuneError, 1)
        else if n < sz then (RuneError, 1)
        else
          let b1 = (of_char (s ! 1) :: nat) in
          if b1 < accept_lo s0 \<or> accept_hi s0 < b1 then (RuneError, 1)
          else if sz \<le> 2 then ((s0 mod 0x20) * 0x40 + b1 mod 0x40, 2)
          else
            let b2 = (of_char (s ! 2) :: nat) in
            if b2 < 0x80 \<or> 0xBF < b2 then (RuneError, 1)
            else if sz \<le> 3 then ((s0 mod 0x10) * 0x1000 + (b1 mod 0x40) * 0x40 + b2 mod 0x40, 3)
            else
              let b3 = (of_char (s ! 3) :: nat) in
              if b3 < 0x80 \<or> 0xBF < b3 then (RuneError, 1)
              else ((s0 mod 0x08) * 0x40000 + (b1 mod 0x40) * 0x1000
                      + (b2 mod 0x40) * 0x40 + b3 mod 0x40, 4))"

text \<open>
  \<open>unicode.IsSpace\<close>: in Latin-1 the characters \<open>\t \n \v \f \r\<close>, space, U+0085 and
  U+00A0; beyond Latin-1 the code points with the property White_Space.
\<close>

definition IsSpace :: "nat \<Rightarrow> bool" where
  "IsSpace r =
     (if r \<le> 0xFF then
        r = 0x09 \<or> r = 0x0A \<or> r = 0x0B \<or> r = 0x0C \<or> r = 0x0D \<or> r = 0x20 \<or> r = 0x85 \<or> r = 0xA0
      else
        r = 0x1680 \<or> (0x2000 \<le> r \<and> r \<le> 0x200A) \<or> r = 0x2028 \<or> r = 0x2029
          \<or> r = 0x202F \<or> r = 0x205F \<or> r = 0x3000)"


text \<open>
  The loop of \<open>strings.indexFunc\<close>: the byte index of the first rune \<open>r\<close> with
  \<open>f r = truth\<close>. The model walks the rest of the string and adds the widths it skipped.
\<close>

function indexFunc :: "string \<Rightarrow> (nat \<Rightarrow> bool) \<Rightarrow> bool \<Rightarrow> nat option" where
  "indexFunc s f truth =
     (if s = [] then None
      else if f (fst (DecodeRuneInString s)) = truth then Some 0
      else map_option (\<lambda>i. snd (DecodeRuneInString s) + i)
             (indexFunc (drop (snd (DecodeRuneInString s)) s) f truth))"
  by pat_completeness auto
termination
  by (relation "measure (\<lambda>(s, f, truth). length s)") (auto simp: DecodeRuneInString_def Let_def)

definition IndexFunc :: "string \<Rightarrow> (nat \<Rightarrow> bool) \<Rightarrow> nat option" where
  "IndexFunc s f = indexFunc s f True"

definition TrimLeftFunc :: "string \<Rightarrow> (nat \<Rightarrow> bool) \<Rightarrow> string" where
  "TrimLeftFunc s f = (case indexFunc s f False of None \<Rightarrow> [] | Some i \<Rightarrow> drop i s)"

text \<open>
  \<open>unicode.SimpleFold\<close> on the case-folding orbits that meet ASCII: the letters, with
  U+212A (Kelvin sign) in the orbit of \<open>k\<close> and U+017F (long s) in the orbit of \<open>s\<close>. It
  gives the next larger rune of the orbit, or wraps around to the smallest. The other
  orbits of the Unicode tables are not part of the model (such a rune folds to itself
  here); none of them contains an ASCII character, and every call of \<open>EqualFold\<close> in
  this package compares with an ASCII literal.
\<close>

definition SimpleFold :: "nat \<Rightarrow> nat" where
  "SimpleFold r =
     (if r = 0x4B then 0x6B
      else if r = 0x53 then 0x73
      else if r = 0x6B then 0x212A
      else if r = 0x73 then 0x17F
      else if r = 0x17F then 0x53
      else if r = 0x212A then 0x4B
      else if 0x41 \<le> r \<and> r \<le> 0x5A then r + 0x20
      else if 0x61 \<le> r \<and> r \<le> 0x7A then r - 0x20
      else r)"

text \<open>
  One step of \<open>strings.EqualFold\<close>: the two runes are equal, or the larger one is
  reached from the smaller one by \<open>SimpleFold\<close> (an orbit has at most three runes here,
  so two applications walk all of it).
\<close>

definition foldEq :: "nat \<Rightarrow> nat \<Rightarrow> bool" where
  "foldEq sr tr =
     (tr = sr \<or>
      (let lo = min sr tr; hi = max sr tr in
       if hi < 0x80 \<and> 0x41 \<le> lo \<and> lo \<le> 0x5A then hi = lo + 0x20
       else SimpleFold lo = hi \<or> SimpleFold (SimpleFold lo) = hi))"

function EqualFold :: "string \<Rightarrow> string \<Rightarrow> bool" where
  "EqualFold s t =
     (if s \<noteq> [] \<and> t \<noteq> [] then
        (if foldEq (fst (DecodeRuneInString s)) (fst (DecodeRuneInString t))
         then EqualFold (drop (snd (DecodeRuneInString s)) s) (drop (snd (DecodeRuneInString t)) t)
         else False)
      else s = t)"
  by pat_completeness auto
termination
  by (relation "measure (\<lambda>(s, t). length s)") (auto simp: DecodeRuneInString_def Let_def)

subsection \<open>The package\<close>

definition filteredReplicationUnfriendlyAnnotation :: string where
  "filteredReplicationUnfriendlyAnnotation = ''/* vtgate:: filtered_replication_unfriendly */''"

text \<open>
  The two package variables: the counter \<open>stats.Int\<close> (an \<open>int64\<close>) and the throttled
  logger. The logger's type and its method \<open>Warningf\<close> belong to package \<open>logutil\<close>: its
  state is a type parameter, and \<open>Warningf\<close> (format, arguments, state before, state
  after) is a parameter of \<open>AnnotateIfDML\<close>.
\<close>

record 'l globals =
  filteredReplicationUnfriendlyStatementsCount :: "64 word"
  filteredReplicationUnfriendlyStatementLogger :: 'l

text \<open>\<open>IsDML\<close> returns true if \<open>sql\<close> is an INSERT, UPDATE or DELETE statement.\<close>

definition IsDML :: "string \<Rightarrow> bool" where
  "IsDML sql0 =
     (let sql = TrimLeftFunc sql0 IsSpace in
      case IndexFunc sql IsSpace of
        None \<Rightarrow> False
      | Some end' \<Rightarrow>
          (let word = take end' sql in
           EqualFold word ''insert'' \<or> EqualFold word ''update'' \<or> EqualFold word ''delete''))"

text \<open>\<open>fmt.Sprintf("%s /* vtgate:: keyspace_id:%s */%s", ...)\<close>\<close>

definition AddKeyspaceID :: "string \<Rightarrow> byte list \<Rightarrow> string \<Rightarrow> string" where
  "AddKeyspaceID sql keyspaceID trailingComments =
     sql @ '' /* vtgate:: keyspace_id:'' @ EncodeToString keyspaceID @ '' */'' @ trailingComments"

definition AnnotateIfDML ::
  "(string \<Rightarrow> string list \<Rightarrow> 'l \<Rightarrow> 'l) \<Rightarrow> string \<Rightarrow> byte list list \<Rightarrow> 'l globals \<Rightarrow> string \<times> 'l globals" where
  "AnnotateIfDML Warningf sql keyspaceIDs g =
     (if \<not> IsDML sql then (sql, g)
      else if length keyspaceIDs = 1 then (AddKeyspaceID sql (keyspaceIDs ! 0) [], g)
      else
        (sql @ filteredReplicationUnfriendlyAnnotation,
         g\<lparr>filteredReplicationUnfriendlyStatementsCount :=
              filteredReplicationUnfriendlyStatementsCount g + 1,
            filteredReplicationUnfriendlyStatementLogger :=
              Warningf ''filtered-replication-unfriendly SQL statement detected: %q'' [sql]
                (filteredReplicationUnfriendlyStatementLogger g)\<rparr>))"

text \<open>
  \<open>extractStringBetween\<close>: the string between the leftmost instance of \<open>leftDelim\<close> and
  the next instance of \<open>rightDelim\<close>, or the end of \<open>source\<close>; and whether \<open>leftDelim\<close>
  was found.
\<close>

definition extractStringBetween :: "string \<Rightarrow> string \<Rightarrow> string \<Rightarrow> string \<times> bool" where
  "extractStringBetween source leftDelim rightDelim =
     (case Index source leftDelim of
        None \<Rightarrow> ([], False)
      | Some leftDelimStart \<Rightarrow>
          (let matchStart = leftDelimStart + length leftDelim in
           case Index (drop matchStart source) rightDelim of
             Some matchEnd \<Rightarrow> (take matchEnd (drop matchStart source), True)
           | None \<Rightarrow> (drop matchStart source, True)))"

record ExtractKeySpaceIDError =
  Kind :: int
  Message :: string

definition ExtractKeySpaceIDParseError :: int where
  "ExtractKeySpaceIDParseError = 0"

definition ExtractKeySpaceIDReplicationUnfriendlyError :: int where
  "ExtractKeySpaceIDReplicationUnfriendlyError = 1"

text \<open>
  \<open>ExtractKeySpaceID\<close> returns \<open>(keyspaceID, err)\<close>: \<open>Inr keyspaceID\<close> is a nil error,
  \<open>Inl err\<close> is nil bytes with the error \<open>err\<close>.
\<close>

definition ExtractKeySpaceID :: "string \<Rightarrow> ExtractKeySpaceIDError + byte list" where
  "ExtractKeySpaceID sql =
     (let (keyspaceIDString, hasKeySpaceID) =
            extractStringBetween sql ''/* vtgate:: keyspace_id:'' '' '';
          hasUnfriendlyAnnotation = (Index sql filteredReplicationUnfriendlyAnnotation \<noteq> None)
      in
      if hasKeySpaceID then
        if hasUnfriendlyAnnotation then
          Inl \<lparr>Kind = ExtractKeySpaceIDParseError,
               Message = ''Conflicting annotations in statement '' @ [CHR 0x27] @ sql @ [CHR 0x27]\<rparr>
        else
          (case DecodeString keyspaceIDString of
             Inl err \<Rightarrow>
               Inl \<lparr>Kind = ExtractKeySpaceIDParseError,
                    Message = ''Error parsing keyspace id value in statement: '' @ sql
                                @ '' ('' @ hex_error_Error err @ '')''\<rparr>
           | Inr keyspaceID \<Rightarrow> Inr keyspaceID)
      else if hasUnfriendlyAnnotation then
        Inl \<lparr>Kind = ExtractKeySpaceIDReplicationUnfriendlyError,
             Message = ''Statement: '' @ sql\<rparr>
      else
        Inl \<lparr>Kind = ExtractKeySpaceIDParseError,
             Message = ''No annotation found in '' @ [CHR 0x27] @ sql @ [CHR 0x27]\<rparr>)"

text \<open>
  The method \<open>Error\<close>. Its default branch calls \<open>log.Fatalf\<close>, which ends the process:
  that outcome is \<open>Inl Fatalf\<close>.
\<close>

datatype fatal = Fatalf

definition Error :: "ExtractKeySpaceIDError \<Rightarrow> fatal + string" where
  "Error err =
     (if Kind err = ExtractKeySpaceIDParseError then Inr (''Parse-Error. '' @ Message err)
      else if Kind err = ExtractKeySpaceIDReplicationUnfriendlyError then
        Inr (''Statement is filtered-replication-unfriendly. '' @ Message err)
      else Inl Fatalf)"

subsection \<open>The specification's own notions\<close>

text \<open>
  The lower-case hexadecimal encoding of a byte sequence, by arithmetic on the byte
  values: two digits for each byte, the high one first; the digits \<open>0..9\<close> are the
  characters from \<open>0\<close> on, the digits \<open>10..15\<close> the characters from \<open>a\<close> on.
\<close>

definition spec_hex_digit :: "nat \<Rightarrow> char" where
  "spec_hex_digit d =
     (if d < 10 then char_of (of_char CHR ''0'' + d) else char_of (of_char CHR ''a'' + (d - 10)))"

definition spec_lowercase_hex :: "byte list \<Rightarrow> string" where
  "spec_lowercase_hex bs =
     concat (map (\<lambda>b. [spec_hex_digit (unat b div 16), spec_hex_digit (unat b mod 16)]) bs)"

text \<open>
  The runes of a string: what a reader that decodes UTF-8 from left to right sees, an
  invalid byte giving U+FFFD. Whitespace and tokens of the specification are sequences
  of runes.
\<close>

function runes :: "string \<Rightarrow> nat list" where
  "runes s =
     (if s = [] then []
      else fst (DecodeRuneInString s) # runes (drop (snd (DecodeRuneInString s)) s))"
  by pat_completeness auto
termination
  by (relation "measure length") (auto simp: DecodeRuneInString_def Let_def)

text \<open>
  Case-insensitive equality with an ASCII word: two runes are the same letter when
  their simple case foldings are equal. The folding is given on the runes that fold to
  an ASCII letter: the upper-case ASCII letters, U+017F (long s, which folds to \<open>s\<close>)
  and U+212A (Kelvin sign, which folds to \<open>k\<close>). Every other rune is left as it is.
\<close>

definition spec_fold :: "nat \<Rightarrow> nat" where
  "spec_fold r =
     (if 0x41 \<le> r \<and> r \<le> 0x5A then r + 0x20
      else if r = 0x17F then 0x73
      else if r = 0x212A then 0x6B
      else r)"

text \<open>
  The classification rule in the specification's words: skip the leading whitespace;
  the first token is the longest run of runes that are not whitespace; the statement is
  DML when a whitespace rune follows the token and the token equals \<open>insert\<close>,
  \<open>update\<close> or \<open>delete\<close> without regard to case.
\<close>

definition spec_IsDML :: "string \<Rightarrow> bool" where
  "spec_IsDML s =
     (let rs = dropWhile IsSpace (runes s);
          token = takeWhile (\<lambda>r. \<not> IsSpace r) rs;
          rest = dropWhile (\<lambda>r. \<not> IsSpace r) rs
      in rest \<noteq> [] \<and>
         (map spec_fold token = map of_char ''insert''
          \<or> map spec_fold token = map of_char ''update''
          \<or> map spec_fold token = map of_char ''delete''))"

subsection \<open>A logger for concrete runs\<close>

text \<open>It keeps every message it is given, format and arguments, with no throttling.\<close>

definition keep_all ::
  "string \<Rightarrow> string list \<Rightarrow> (string \<times> string list) list \<Rightarrow> (string \<times> string list) list" where
  "keep_all format args log = log @ [(format, args)]"

section \<open>Properties\<close>

subsection \<open>strings.Index finds the leftmost occurrence\<close>

lemma Index_None_iff: "Index s sep = None \<longleftrightarrow> \<not> sublist sep s"
  by (induction s) (auto simp: sublist_Cons_right)

lemma Index_prefix: "prefix sep s \<Longrightarrow> Index s sep = Some 0"
  by (cases s) auto

lemma Index_Some_D:
  "Index s sep = Some n \<Longrightarrow>
   n \<le> length s \<and> prefix sep (drop n s) \<and> (\<forall>m<n. \<not> prefix sep (drop m s))"
proof (induction s arbitrary: n)
  case Nil
  then show ?case by (auto split: if_splits)
next
  case (Cons c cs)
  show ?case
  proof (cases "prefix sep (c # cs)")
    case True
    with Cons.prems show ?thesis by simp
  next
    case False
    with Cons.prems obtain k where k: "Index cs sep = Some k" "n = Suc k" by auto
    from Cons.IH [OF k(1)] False k(2) show ?thesis
      by (auto simp: less_Suc_eq_0_disj)
  qed
qed

lemma Index_Some_leftmost:
  "Index s sep = Some n \<Longrightarrow> s = a' @ sep @ b' \<Longrightarrow> n \<le> length a'"
proof (rule ccontr)
  assume i: "Index s sep = Some n" and s: "s = a' @ sep @ b'" and "\<not> n \<le> length a'"
  then have "length a' < n" by simp
  with Index_Some_D [OF i] have "\<not> prefix sep (drop (length a') s)" by blast
  with s show False by simp
qed

lemma Index_leftmost:
  assumes "s = a @ sep @ b" and "\<forall>a' b'. s = a' @ sep @ b' \<longrightarrow> length a \<le> length a'"
  shows "Index s sep = Some (length a)"
proof -
  have "sublist sep s" using assms(1) by (auto simp: sublist_def)
  then obtain n where n: "Index s sep = Some n"
    using Index_None_iff [of s sep] by (cases "Index s sep") auto
  from Index_Some_D [OF n] have p: "prefix sep (drop n s)" by simp
  then obtain b' where "drop n s = sep @ b'" by (auto simp: prefix_def)
  then have "s = take n s @ sep @ b'" by (metis append_take_drop_id)
  with assms(2) have "length a \<le> length (take n s)" by blast
  then have "length a \<le> n" by simp
  moreover have "n \<le> length a" using n assms(1) by (rule Index_Some_leftmost)
  ultimately show ?thesis using n by simp
qed

lemma Index_single:
  "Index b [c] = (if c \<in> set b then Some (length (takeWhile (\<lambda>x. x \<noteq> c) b)) else None)"
  by (induction b) auto

subsection \<open>Hexadecimal encoding and decoding\<close>

lemma hextable_digit_all: "list_all (\<lambda>n. hextable ! n = spec_hex_digit n) [0..<16]"
  by code_simp

lemma hextable_digit: "n < 16 \<Longrightarrow> hextable ! n = spec_hex_digit n"
  using hextable_digit_all by (simp add: list_all_iff)

lemma nibble_cases: "n < 16 \<Longrightarrow> n \<in> {0,1,2,3,4,5,6,7,8,9,10,11,12,13,14,15::nat}"
  by simp presburger

lemma fromHexChar_hextable: "n < 16 \<Longrightarrow> fromHexChar (hextable ! n) = Some (word_of_nat n)"
  by (drule nibble_cases) (auto simp: hextable_def fromHexChar_def)

lemma hi_nibble: "unat (drop_bit 4 (v :: byte)) = unat v div 16"
  by (simp add: drop_bit_eq_div unat_div)

lemma lo_nibble: "unat ((v :: byte) AND 0x0f) = unat v mod 16"
proof -
  have "(v AND 0x0f) = take_bit 4 v" by (simp add: take_bit_eq_mask mask_eq_exp_minus_1)
  then show ?thesis by (simp add: take_bit_eq_mod unat_mod)
qed

lemma hi_nibble_lt: "unat (drop_bit 4 (v :: byte)) < 16"
proof -
  have "unat v < 2 ^ 8" using unsigned_less [of v, where 'a = nat] by simp
  then show ?thesis by (simp add: hi_nibble)
qed

lemma lo_nibble_lt: "unat ((v :: byte) AND 0x0f) < 16"
  by (simp add: lo_nibble)

lemma nibbles_join: "push_bit 4 (drop_bit 4 v) OR (v AND 0x0f) = (v :: byte)"
proof -
  have "(v AND 0x0f) = take_bit 4 v" by (simp add: take_bit_eq_mask mask_eq_exp_minus_1)
  then show ?thesis
    by (simp add: bit_eq_iff bit_simps) (auto simp: bit_simps)
qed

lemma EncodeToString_spec: "EncodeToString bs = spec_lowercase_hex bs"
proof (induction bs)
  case Nil
  show ?case by (simp add: spec_lowercase_hex_def)
next
  case (Cons v bs)
  have "hextable ! unat (drop_bit 4 v) = spec_hex_digit (unat v div 16)"
    using hextable_digit [OF hi_nibble_lt, of v] by (simp add: hi_nibble)
  moreover have "hextable ! unat (v AND 0x0f) = spec_hex_digit (unat v mod 16)"
    using hextable_digit [OF lo_nibble_lt, of v] by (simp add: lo_nibble)
  ultimately show ?case using Cons by (simp add: spec_lowercase_hex_def)
qed

lemma length_EncodeToString: "length (EncodeToString bs) = 2 * length bs"
  by (induction bs) simp_all

lemma Decode_loop_EncodeToString: "Decode_loop (EncodeToString bs) = Inr bs"
  by (induction bs) (simp_all add: fromHexChar_hextable hi_nibble_lt lo_nibble_lt nibbles_join)

lemma DecodeString_EncodeToString: "DecodeString (EncodeToString bs) = Inr bs"
  by (simp add: DecodeString_def Decode_def length_EncodeToString Decode_loop_EncodeToString)

lemma hextable_set: "n < 16 \<Longrightarrow> hextable ! n \<in> set hextable"
  by (rule nth_mem) (simp add: hextable_def)

lemma set_EncodeToString: "set (EncodeToString bs) \<subseteq> set hextable"
  by (induction bs) (simp_all add: hextable_set hi_nibble_lt lo_nibble_lt)

subsection \<open>The parser\<close>

lemma extractStringBetween_found:
  "snd (extractStringBetween source leftDelim rightDelim) = sublist leftDelim source"
  using Index_None_iff [of source leftDelim]
  by (cases "Index source leftDelim") (auto simp: extractStringBetween_def Let_def split: option.splits)

lemma extractStringBetween_space:
  assumes "Index s leftDelim = Some n"
  shows "fst (extractStringBetween s leftDelim '' '')
           = takeWhile (\<lambda>c. c \<noteq> CHR '' '') (drop (n + length leftDelim) s)"
proof -
  let ?b = "drop (n + length leftDelim) s"
  show ?thesis
  proof (cases "CHR '' '' \<in> set ?b")
    case True
    have "take (length (takeWhile (\<lambda>c. c \<noteq> CHR '' '') ?b)) ?b = takeWhile (\<lambda>c. c \<noteq> CHR '' '') ?b"
      by (rule takeWhile_eq_take [symmetric])
    with True show ?thesis using assms
      by (simp add: extractStringBetween_def Let_def Index_single)
  next
    case False
    then have tw: "takeWhile (\<lambda>c. c \<noteq> CHR '' '') ?b = ?b" by (auto simp: takeWhile_eq_all_conv)
    from False assms show ?thesis
      by (simp add: extractStringBetween_def Let_def Index_single tw)
  qed
qed

lemma ExtractKeySpaceID_table:
  "ExtractKeySpaceID s =
     (if sublist ''/* vtgate:: keyspace_id:'' s then
        if sublist filteredReplicationUnfriendlyAnnotation s then
          Inl \<lparr>Kind = ExtractKeySpaceIDParseError,
               Message = ''Conflicting annotations in statement '' @ [CHR 0x27] @ s @ [CHR 0x27]\<rparr>
        else
          (case DecodeString (fst (extractStringBetween s ''/* vtgate:: keyspace_id:'' '' '')) of
             Inl err \<Rightarrow>
               Inl \<lparr>Kind = ExtractKeySpaceIDParseError,
                    Message = ''Error parsing keyspace id value in statement: '' @ s
                                @ '' ('' @ hex_error_Error err @ '')''\<rparr>
           | Inr keyspaceID \<Rightarrow> Inr keyspaceID)
      else if sublist filteredReplicationUnfriendlyAnnotation s then
        Inl \<lparr>Kind = ExtractKeySpaceIDReplicationUnfriendlyError, Message = ''Statement: '' @ s\<rparr>
      else
        Inl \<lparr>Kind = ExtractKeySpaceIDParseError,
             Message = ''No annotation found in '' @ [CHR 0x27] @ s @ [CHR 0x27]\<rparr>)"
proof -
  have u: "(Index s filteredReplicationUnfriendlyAnnotation \<noteq> None)
             = sublist filteredReplicationUnfriendlyAnnotation s"
    by (simp add: Index_None_iff)
  have k: "snd (extractStringBetween s ''/* vtgate:: keyspace_id:'' '' '')
             = sublist ''/* vtgate:: keyspace_id:'' s"
    by (rule extractStringBetween_found)
  show ?thesis
    unfolding ExtractKeySpaceID_def u
    using k by (simp add: case_prod_unfold Let_def)
qed


subsection \<open>A marker appended to a statement that has none\<close>

lemma no_straddle:
  assumes "sep = x1 @ x2" and "x2 \<noteq> []" and "prefix x2 (a # b # t)"
    and "\<not> suffix [a] sep" and "\<not> sublist [a, b] sep"
  shows False
proof -
  from assms(2,3) obtain x2' where x2: "x2 = a # x2'" and p: "prefix x2' (b # t)"
    by (cases x2) auto
  show False
  proof (cases x2')
    case Nil
    with x2 assms(1) have "suffix [a] sep" by (simp add: suffix_def)
    with assms(4) show False by simp
  next
    case (Cons y ys)
    with p have "y = b" by simp
    with Cons x2 assms(1) have "sep = x1 @ [a, b] @ ys" by simp
    then have "sublist [a, b] sep" unfolding sublist_def by blast
    with assms(5) show False by simp
  qed
qed

lemma Index_append_fresh:
  assumes "\<not> sublist sep s"
    and "\<And>x1 x2. sep = x1 @ x2 \<Longrightarrow> x2 \<noteq> [] \<Longrightarrow> \<not> prefix x2 t"
  shows "Index (s @ t) sep = map_option (\<lambda>i. length s + i) (Index t sep)"
  using assms(1)
proof (induction s)
  case Nil
  show ?case by (simp add: option.map_ident)
next
  case (Cons c cs)
  from Cons.prems have np: "\<not> prefix sep (c # cs)" and ns: "\<not> sublist sep cs"
    by (auto simp: sublist_Cons_right)
  have "\<not> prefix sep ((c # cs) @ t)"
  proof
    assume "prefix sep ((c # cs) @ t)"
    with np obtain us where us: "sep = (c # cs) @ us" "prefix us t"
      unfolding prefix_append by blast
    with np have "us \<noteq> []" by auto
    with assms(2) [OF us(1)] us(2) show False by simp
  qed
  then show ?case using Cons.IH [OF ns]
    by (simp add: option.map_comp comp_def)
qed

lemma sublist_append_fresh:
  assumes "\<not> sublist sep s" and "\<not> sublist sep t"
    and "\<And>x1 x2. sep = x1 @ x2 \<Longrightarrow> x2 \<noteq> [] \<Longrightarrow> \<not> prefix x2 t"
  shows "\<not> sublist sep (s @ t)"
proof
  assume "sublist sep (s @ t)"
  with assms(1,2) obtain x1 x2 where x: "sep = x1 @ x2" "suffix x1 s" "prefix x2 t"
    unfolding sublist_append by blast
  show False
  proof (cases "x2 = []")
    case True
    with x have "suffix sep s" by simp
    then have "sublist sep s" by (rule suffix_imp_sublist)
    with assms(1) show False by simp
  next
    case False
    with assms(3) [OF x(1)] x(3) show False by simp
  qed
qed

lemma delim_tail: "\<not> suffix '' '' ''/* vtgate:: keyspace_id:''"
  by code_simp

lemma delim_inner: "\<not> sublist '' /'' ''/* vtgate:: keyspace_id:''"
  by code_simp

lemma sentinel_tail: "\<not> suffix '' '' ''/* vtgate:: filtered_replication_unfriendly */''"
  by code_simp

lemma sentinel_inner: "\<not> sublist '' /'' ''/* vtgate:: filtered_replication_unfriendly */''"
  by code_simp

lemma space_notin_hex: "CHR '' '' \<notin> set (EncodeToString bs)"
  using set_EncodeToString [of bs] by (auto simp: hextable_def)

lemma ell_notin_marker:
  "CHR ''l'' \<notin> set ('' /* vtgate:: keyspace_id:'' @ EncodeToString bs @ '' */'')"
  using set_EncodeToString [of bs] by (auto simp: hextable_def)

lemma sentinel_notin_marker:
  "\<not> sublist ''/* vtgate:: filtered_replication_unfriendly */''
       ('' /* vtgate:: keyspace_id:'' @ EncodeToString bs @ '' */'')"
proof
  assume "sublist ''/* vtgate:: filtered_replication_unfriendly */''
       ('' /* vtgate:: keyspace_id:'' @ EncodeToString bs @ '' */'')"
  then have "set ''/* vtgate:: filtered_replication_unfriendly */''
      \<subseteq> set ('' /* vtgate:: keyspace_id:'' @ EncodeToString bs @ '' */'')"
    by (rule set_mono_sublist)
  moreover have "CHR ''l'' \<in> set ''/* vtgate:: filtered_replication_unfriendly */''" by simp
  ultimately show False using ell_notin_marker [of bs] by blast
qed

lemma AddKeyspaceID_Index:
  assumes "\<not> sublist ''/* vtgate:: keyspace_id:'' s"
  shows "Index (AddKeyspaceID s bs []) ''/* vtgate:: keyspace_id:'' = Some (length s + 1)"
proof -
  let ?t = "'' /* vtgate:: keyspace_id:'' @ EncodeToString bs @ '' */''"
  have st: "\<not> prefix x2 ?t" if e: "''/* vtgate:: keyspace_id:'' = x1 @ x2" and n: "x2 \<noteq> []"
    for x1 x2 :: string
  proof
    assume "prefix x2 ?t"
    then have p: "prefix x2 (CHR '' '' # CHR ''/'' # ''* vtgate:: keyspace_id:'' @ EncodeToString bs @ '' */'')"
      by simp
    from no_straddle [OF e n p delim_tail delim_inner] show False .
  qed
  have "Index ?t ''/* vtgate:: keyspace_id:'' = Some 1"
    by (simp add: Index_prefix)
  with Index_append_fresh [OF assms st] show ?thesis
    by (simp add: AddKeyspaceID_def)
qed


lemma AddKeyspaceID_no_sentinel:
  assumes "\<not> sublist ''/* vtgate:: filtered_replication_unfriendly */'' s"
  shows "\<not> sublist ''/* vtgate:: filtered_replication_unfriendly */'' (AddKeyspaceID s bs [])"
proof -
  let ?t = "'' /* vtgate:: keyspace_id:'' @ EncodeToString bs @ '' */''"
  have st: "\<not> prefix x2 ?t"
    if e: "''/* vtgate:: filtered_replication_unfriendly */'' = x1 @ x2" and n: "x2 \<noteq> []"
    for x1 x2 :: string
  proof
    assume "prefix x2 ?t"
    then have p: "prefix x2 (CHR '' '' # CHR ''/'' # ''* vtgate:: keyspace_id:'' @ EncodeToString bs @ '' */'')"
      by simp
    from no_straddle [OF e n p sentinel_tail sentinel_inner] show False .
  qed
  from sublist_append_fresh [OF assms sentinel_notin_marker st] show ?thesis
    by (simp add: AddKeyspaceID_def)
qed

lemma AddKeyspaceID_capture:
  assumes "\<not> sublist ''/* vtgate:: keyspace_id:'' s"
  shows "fst (extractStringBetween (AddKeyspaceID s bs []) ''/* vtgate:: keyspace_id:'' '' '')
           = EncodeToString bs"
proof -
  have d: "drop (length s + 1 + length ''/* vtgate:: keyspace_id:'') (AddKeyspaceID s bs [])
          = EncodeToString bs @ '' */''"
    by (simp add: AddKeyspaceID_def)
  have "takeWhile (\<lambda>c. c \<noteq> CHR '' '') (EncodeToString bs @ '' */'') = EncodeToString bs"
    using space_notin_hex [of bs] by (subst takeWhile_append2) auto
  with extractStringBetween_space [OF AddKeyspaceID_Index [OF assms, of bs]] d
  show ?thesis by simp
qed

lemma roundtrip_aux:
  assumes "\<not> sublist ''/* vtgate:: keyspace_id:'' s"
    and "\<not> sublist ''/* vtgate:: filtered_replication_unfriendly */'' s"
  shows "ExtractKeySpaceID (AddKeyspaceID s bs []) = Inr bs"
proof -
  have k: "sublist ''/* vtgate:: keyspace_id:'' (AddKeyspaceID s bs [])"
    using AddKeyspaceID_Index [OF assms(1), of bs] Index_None_iff [of "AddKeyspaceID s bs []" "''/* vtgate:: keyspace_id:''"]
    by simp
  have u: "\<not> sublist filteredReplicationUnfriendlyAnnotation (AddKeyspaceID s bs [])"
    using AddKeyspaceID_no_sentinel [OF assms(2), of bs]
    by (simp add: filteredReplicationUnfriendlyAnnotation_def)
  show ?thesis
    by (subst ExtractKeySpaceID_table)
       (simp only: k u if_True if_False AddKeyspaceID_capture [OF assms(1)]
          DecodeString_EncodeToString sum.case)
qed

subsection \<open>Runes: decoding, trimming and the first token\<close>

lemma rune_size_cases: "rune_size b \<in> {0, 1, 2, 3, 4}"
  by (simp add: rune_size_def)

lemma DecodeRuneInString_width:
  "s \<noteq> [] \<Longrightarrow> 0 < snd (DecodeRuneInString s) \<and> snd (DecodeRuneInString s) \<le> length s"
  by (cases s) (auto simp: DecodeRuneInString_def Let_def)

lemma DecodeRuneInString_take:
  assumes "s \<noteq> []" and "snd (DecodeRuneInString s) \<le> n"
  shows "DecodeRuneInString (take n s) = DecodeRuneInString s"
proof -
  from assms DecodeRuneInString_width [of s] have n: "0 < n" by simp
  with assms(1) have ne: "take n s \<noteq> []" by simp
  have h0: "take n s ! 0 = s ! 0" using n by simp
  have len: "length (take n s) = min n (length s)" by simp
  consider "rune_size (of_char (s ! 0)) = 0" | "rune_size (of_char (s ! 0)) = 1"
    | "rune_size (of_char (s ! 0)) = 2" | "rune_size (of_char (s ! 0)) = 3"
    | "rune_size (of_char (s ! 0)) = 4"
    using rune_size_cases [of "of_char (s ! 0)"] by auto
  then show ?thesis
  proof cases
    case 1
    then show ?thesis using assms(1) ne h0 by (simp add: DecodeRuneInString_def Let_def)
  next
    case 2
    then show ?thesis using assms(1) ne h0 by (simp add: DecodeRuneInString_def Let_def)
  next
    case 3
    then show ?thesis using assms ne h0 n
      by (auto simp: DecodeRuneInString_def Let_def min_def not_less split: if_splits)
  next
    case 4
    then show ?thesis using assms ne h0 n
      by (auto simp: DecodeRuneInString_def Let_def min_def not_less split: if_splits)
  next
    case 5
    then show ?thesis using assms ne h0 n
      by (auto simp: DecodeRuneInString_def Let_def min_def not_less split: if_splits)
  qed
qed

declare runes.simps [simp del] indexFunc.simps [simp del] EqualFold.simps [simp del]

lemma runes_Nil [simp]: "runes [] = []"
  by (simp add: runes.simps)

lemma runes_eq_Nil [simp]: "runes s = [] \<longleftrightarrow> s = []"
  by (subst runes.simps) simp

lemma indexFunc_None:
  "indexFunc s f truth = None \<longleftrightarrow> (\<forall>r\<in>set (runes s). f r \<noteq> truth)"
proof (induction s f truth rule: indexFunc.induct)
  case (1 s f truth)
  show ?case
  proof (cases "s = []")
    case True
    then show ?thesis by (simp add: indexFunc.simps)
  next
    case False
    show ?thesis
    proof (cases "f (fst (DecodeRuneInString s)) = truth")
      case True
      with False show ?thesis
        by (subst indexFunc.simps, subst runes.simps) auto
    next
      case neq: False
      from "1.IH" [OF False neq] False neq show ?thesis
        by (subst indexFunc.simps, subst runes.simps) auto
    qed
  qed
qed

lemma indexFunc_Some:
  "indexFunc s f truth = Some n \<Longrightarrow>
   n \<le> length s
   \<and> runes (take n s) = takeWhile (\<lambda>r. f r \<noteq> truth) (runes s)
   \<and> runes (drop n s) = dropWhile (\<lambda>r. f r \<noteq> truth) (runes s)"
proof (induction s f truth arbitrary: n rule: indexFunc.induct)
  case (1 s f truth)
  from "1.prems" have ne: "s \<noteq> []" by (auto simp: indexFunc.simps)
  let ?r = "fst (DecodeRuneInString s)" and ?w = "snd (DecodeRuneInString s)"
  have rs: "runes s = ?r # runes (drop ?w s)" using ne by (subst runes.simps) simp
  show ?case
  proof (cases "f ?r = truth")
    case True
    with "1.prems" ne have "n = 0" by (subst (asm) indexFunc.simps) simp
    with True rs show ?thesis by simp
  next
    case False
    with "1.prems" ne obtain i where i: "indexFunc (drop ?w s) f truth = Some i" and n: "n = ?w + i"
      by (subst (asm) indexFunc.simps) auto
    from "1.IH" [OF ne False i]
    have le: "i \<le> length (drop ?w s)"
      and t: "runes (take i (drop ?w s)) = takeWhile (\<lambda>r. f r \<noteq> truth) (runes (drop ?w s))"
      and d: "runes (drop i (drop ?w s)) = dropWhile (\<lambda>r. f r \<noteq> truth) (runes (drop ?w s))"
      by auto
    from DecodeRuneInString_width [OF ne] have w: "0 < ?w" "?w \<le> length s" by auto
    have tne: "take n s \<noteq> []" using ne w n by simp
    have dec: "DecodeRuneInString (take n s) = DecodeRuneInString s"
      using ne n by (intro DecodeRuneInString_take) simp_all
    have "runes (take n s) = ?r # runes (drop ?w (take n s))"
      using tne dec by (subst runes.simps) simp
    also have "drop ?w (take n s) = take i (drop ?w s)"
      using n by (simp add: drop_take)
    finally have "runes (take n s) = ?r # takeWhile (\<lambda>r. f r \<noteq> truth) (runes (drop ?w s))"
      using t by simp
    moreover have "drop n s = drop i (drop ?w s)" using n by (simp add: add.commute)
    moreover have "n \<le> length s" using le w n by simp
    ultimately show ?thesis using False rs d by simp
  qed
qed

lemma runes_TrimLeftFunc: "runes (TrimLeftFunc s f) = dropWhile f (runes s)"
proof (cases "indexFunc s f False")
  case None
  then have "\<forall>r\<in>set (runes s). f r" by (simp add: indexFunc_None)
  then have dw: "dropWhile f (runes s) = []" by simp
  show ?thesis unfolding TrimLeftFunc_def None dw by simp
next
  case (Some n)
  from indexFunc_Some [OF Some] Some show ?thesis by (simp add: TrimLeftFunc_def)
qed

lemma EqualFold_runes: "EqualFold s t = list_all2 foldEq (runes s) (runes t)"
proof (induction s t rule: EqualFold.induct)
  case (1 s t)
  show ?case
  proof (cases "s \<noteq> [] \<and> t \<noteq> []")
    case True
    then have rs: "runes s = fst (DecodeRuneInString s) # runes (drop (snd (DecodeRuneInString s)) s)"
      and rt: "runes t = fst (DecodeRuneInString t) # runes (drop (snd (DecodeRuneInString t)) t)"
      by (subst runes.simps, simp)+
    show ?thesis
    proof (cases "foldEq (fst (DecodeRuneInString s)) (fst (DecodeRuneInString t))")
      case f: True
      from "1.IH" [OF True f] True f show ?thesis
        by (subst EqualFold.simps) (simp add: rs rt)
    next
      case f: False
      with True show ?thesis by (subst EqualFold.simps) (simp add: rs rt)
    qed
  next
    case False
    then show ?thesis by (subst EqualFold.simps) (auto simp: eq_commute [of "[]"])
  qed
qed

subsection \<open>Case folding against an ASCII word\<close>

lemma SimpleFold_lower:
  assumes "0x61 \<le> l" and "l \<le> 0x7A"
  shows "SimpleFold l = (if l = 0x6B then 0x212A else if l = 0x73 then 0x17F else l - 0x20)"
  using assms by (simp add: SimpleFold_def)

lemma SimpleFold_upper:
  assumes "0x41 \<le> u" and "u \<le> 0x5A"
  shows "SimpleFold u = u + 0x20"
  using assms by (auto simp: SimpleFold_def)

lemma SimpleFold_other:
  assumes "r < 0x41 \<or> (0x5A < r \<and> r < 0x61)"
  shows "SimpleFold r = r"
  using assms by (auto simp: SimpleFold_def)

lemma SimpleFold2_lower:
  assumes "0x61 \<le> l" and "l \<le> 0x7A"
  shows "SimpleFold (SimpleFold l) = (if l = 0x6B then 0x4B else if l = 0x73 then 0x53 else l)"
proof -
  consider "l = 0x6B" | "l = 0x73" | "l \<noteq> 0x6B" "l \<noteq> 0x73" by blast
  then show ?thesis
  proof cases
    case 1 then show ?thesis by (simp add: SimpleFold_def)
  next
    case 2 then show ?thesis by (simp add: SimpleFold_def)
  next
    case 3
    with assms have "SimpleFold l = l - 0x20" by (simp add: SimpleFold_lower)
    moreover have "0x41 \<le> l - 0x20" "l - 0x20 \<le> 0x5A" using assms by simp_all
    ultimately show ?thesis using assms 3 by (simp add: SimpleFold_upper)
  qed
qed

lemma foldEq_lower:
  assumes "0x61 \<le> l" and "l \<le> 0x7A"
  shows "foldEq r l \<longleftrightarrow> spec_fold r = l"
proof -
  consider "r = l" | "r < l" "0x41 \<le> r \<and> r \<le> 0x5A" | "r < l" "r < 0x41 \<or> (0x5A < r \<and> r < 0x61)"
    | "r < l" "0x61 \<le> r" | "l < r"
    by linarith
  then show ?thesis
  proof cases
    case 1
    with assms show ?thesis by (simp add: foldEq_def spec_fold_def)
  next
    case 2
    with assms have "foldEq r l = (l = r + 0x20)"
      by (simp add: foldEq_def Let_def min_def max_def)
    with 2 show ?thesis by (auto simp: spec_fold_def)
  next
    case 3
    with assms have "foldEq r l = (SimpleFold r = l \<or> SimpleFold (SimpleFold r) = l)"
      by (auto simp: foldEq_def Let_def min_def max_def)
    with 3 have "\<not> foldEq r l" by (simp add: SimpleFold_other)
    moreover have "spec_fold r \<noteq> l" using 3 assms by (auto simp: spec_fold_def)
    ultimately show ?thesis by simp
  next
    case 4
    with assms have r: "0x61 \<le> r" "r \<le> 0x7A" by simp_all
    from 4 assms have "foldEq r l = (SimpleFold r = l \<or> SimpleFold (SimpleFold r) = l)"
      by (simp add: foldEq_def Let_def min_def max_def)
    moreover have "SimpleFold r \<noteq> l" using 4 assms by (auto simp: SimpleFold_lower [OF r])
    moreover have "SimpleFold (SimpleFold r) \<noteq> l"
      using 4 assms by (auto simp: SimpleFold2_lower [OF r])
    ultimately have "\<not> foldEq r l" by simp
    moreover have "spec_fold r \<noteq> l" using 4 assms by (simp add: spec_fold_def)
    ultimately show ?thesis by simp
  next
    case 5
    define s1 where "s1 = SimpleFold l"
    define s2 where "s2 = SimpleFold (SimpleFold l)"
    have a: "s1 = (if l = 0x6B then 0x212A else if l = 0x73 then 0x17F else l - 0x20)"
      unfolding s1_def by (rule SimpleFold_lower [OF assms])
    have b: "s2 = (if l = 0x6B then 0x4B else if l = 0x73 then 0x53 else l)"
      unfolding s2_def by (rule SimpleFold2_lower [OF assms])
    from 5 assms have "foldEq r l = (s1 = r \<or> s2 = r)"
      unfolding s1_def s2_def by (simp add: foldEq_def Let_def min_def max_def)
    also have "\<dots> = (spec_fold r = l)"
      using 5 assms by (auto simp: a b spec_fold_def)
    finally show ?thesis .
  qed
qed

lemma list_all2_foldEq_lower:
  "\<forall>l\<in>set ls. 0x61 \<le> l \<and> l \<le> 0x7A \<Longrightarrow> list_all2 foldEq rs ls \<longleftrightarrow> map spec_fold rs = ls"
proof (induction rs arbitrary: ls)
  case Nil
  show ?case by auto
next
  case (Cons r rs)
  show ?case
  proof (cases ls)
    case Nil
    then show ?thesis by simp
  next
    case (Cons l ls')
    with Cons.prems have "foldEq r l \<longleftrightarrow> spec_fold r = l" by (intro foldEq_lower) auto
    moreover from Cons.prems Cons have "list_all2 foldEq rs ls' \<longleftrightarrow> map spec_fold rs = ls'"
      by (intro Cons.IH) auto
    ultimately show ?thesis using Cons by simp
  qed
qed

lemma runes_keywords:
  "runes ''insert'' = map of_char ''insert''"
  "runes ''update'' = map of_char ''update''"
  "runes ''delete'' = map of_char ''delete''"
  by code_simp+

lemma EqualFold_keyword:
  assumes "runes kw = map of_char kw" and "\<forall>c\<in>set kw. 0x61 \<le> (of_char c :: nat) \<and> (of_char c :: nat) \<le> 0x7A"
  shows "EqualFold word kw \<longleftrightarrow> map spec_fold (runes word) = map of_char kw"
proof -
  have "\<forall>l\<in>set (map of_char kw). 0x61 \<le> l \<and> l \<le> (0x7A :: nat)" using assms(2) by auto
  from list_all2_foldEq_lower [OF this] show ?thesis
    by (simp add: EqualFold_runes assms(1))
qed

lemma IsDML_spec: "IsDML s \<longleftrightarrow> spec_IsDML s"
proof -
  let ?sql = "TrimLeftFunc s IsSpace"
  let ?rs = "dropWhile IsSpace (runes s)"
  have rs: "runes ?sql = ?rs" by (rule runes_TrimLeftFunc)
  show ?thesis
  proof (cases "IndexFunc ?sql IsSpace")
    case None
    then have "\<forall>r\<in>set ?rs. \<not> IsSpace r"
      using indexFunc_None [of ?sql IsSpace True] by (simp add: IndexFunc_def rs)
    then have "dropWhile (\<lambda>r. \<not> IsSpace r) ?rs = []" by simp
    then have "\<not> spec_IsDML s" by (simp add: spec_IsDML_def Let_def)
    moreover have "\<not> IsDML s" using None by (simp add: IsDML_def)
    ultimately show ?thesis by simp
  next
    case (Some e)
    then have i: "indexFunc ?sql IsSpace True = Some e" by (simp add: IndexFunc_def)
    from indexFunc_Some [OF i] have tok: "runes (take e ?sql) = takeWhile (\<lambda>r. \<not> IsSpace r) ?rs"
      by (simp add: rs)
    have "\<not> (\<forall>r\<in>set ?rs. \<not> IsSpace r)"
      using indexFunc_None [of ?sql IsSpace True] i by (simp add: rs)
    then have rest: "dropWhile (\<lambda>r. \<not> IsSpace r) ?rs \<noteq> []" by simp
    have "IsDML s \<longleftrightarrow> EqualFold (take e ?sql) ''insert'' \<or> EqualFold (take e ?sql) ''update''
            \<or> EqualFold (take e ?sql) ''delete''"
      using Some by (simp add: IsDML_def Let_def)
    also have "EqualFold (take e ?sql) ''insert''
          \<longleftrightarrow> map spec_fold (takeWhile (\<lambda>r. \<not> IsSpace r) ?rs) = map of_char ''insert''"
      using EqualFold_keyword [OF runes_keywords(1), of "take e ?sql"] by (simp add: tok)
    also have "EqualFold (take e ?sql) ''update''
          \<longleftrightarrow> map spec_fold (takeWhile (\<lambda>r. \<not> IsSpace r) ?rs) = map of_char ''update''"
      using EqualFold_keyword [OF runes_keywords(2), of "take e ?sql"] by (simp add: tok)
    also have "EqualFold (take e ?sql) ''delete''
          \<longleftrightarrow> map spec_fold (takeWhile (\<lambda>r. \<not> IsSpace r) ?rs) = map of_char ''delete''"
      using EqualFold_keyword [OF runes_keywords(3), of "take e ?sql"] by (simp add: tok)
    finally show ?thesis using rest by (simp add: spec_IsDML_def Let_def)
  qed
qed

section \<open>The claims\<close>

text \<open>
  Claim C1, as the code has it. The round trip holds for every keyspace id (the empty
  one too) and every statement \<open>s\<close> that contains neither the delimiter
  \<open>/* vtgate:: keyspace_id:\<close> nor the sentinel
  \<open>/* vtgate:: filtered_replication_unfriendly */\<close>: then \<open>ExtractKeySpaceID\<close> of
  \<open>AddKeyspaceID s id ""\<close> returns exactly \<open>id\<close> with a nil error, and for such a
  DML statement \<open>ExtractKeySpaceID\<close> of \<open>AnnotateIfDML s [id]\<close> returns \<open>(id, nil)\<close>.
\<close>

theorem AddKeyspaceID_roundtrip:
  "\<not> sublist ''/* vtgate:: keyspace_id:'' s \<Longrightarrow>
   \<not> sublist ''/* vtgate:: filtered_replication_unfriendly */'' s \<Longrightarrow>
   ExtractKeySpaceID (AddKeyspaceID s keyspaceID []) = Inr keyspaceID
   \<and> (IsDML s \<longrightarrow>
        ExtractKeySpaceID (fst (AnnotateIfDML Warningf s [keyspaceID] g)) = Inr keyspaceID)"
  by (simp add: roundtrip_aux AnnotateIfDML_def)

theorem AddKeyspaceID_roundtrip_witness:
  "\<not> sublist ''/* vtgate:: keyspace_id:'' ''insert x''
   \<and> \<not> sublist ''/* vtgate:: filtered_replication_unfriendly */'' ''insert x''
   \<and> IsDML ''insert x''
   \<and> ExtractKeySpaceID (AddKeyspaceID ''insert x'' [0x1f, 0xa0] []) = Inr [0x1f, 0xa0]
   \<and> ExtractKeySpaceID (AddKeyspaceID ''insert x'' [] []) = Inr []
   \<and> ExtractKeySpaceID
         (fst (AnnotateIfDML keep_all ''insert x'' [[0x1f, 0xa0]]
            \<lparr>filteredReplicationUnfriendlyStatementsCount = 0,
             filteredReplicationUnfriendlyStatementLogger = []\<rparr>)) = Inr [0x1f, 0xa0]"
proof -
  have k: "\<not> sublist ''/* vtgate:: keyspace_id:'' ''insert x''" by code_simp
  have u: "\<not> sublist ''/* vtgate:: filtered_replication_unfriendly */'' ''insert x''" by code_simp
  have d: "IsDML ''insert x''" by code_simp
  from AddKeyspaceID_roundtrip [OF k u, of "[0x1f, 0xa0]" keep_all
         "\<lparr>filteredReplicationUnfriendlyStatementsCount = 0,
          filteredReplicationUnfriendlyStatementLogger = []\<rparr>"]
       AddKeyspaceID_roundtrip [OF k u, of "[]" keep_all
         "\<lparr>filteredReplicationUnfriendlyStatementsCount = 0,
          filteredReplicationUnfriendlyStatementLogger = []\<rparr>"]
       k u d
  show ?thesis by (simp only: simp_thms)
qed

text \<open>
  The claim C1 as it is written, for every statement, fails: a DML statement that
  already holds the delimiter in a string literal gives back the bytes written there,
  not the id that was added.
\<close>

theorem AddKeyspaceID_roundtrip_counterexample:
  "IsDML ''insert into t values ('/* vtgate:: keyspace_id:00 */')''
   \<and> ExtractKeySpaceID
         (AddKeyspaceID ''insert into t values ('/* vtgate:: keyspace_id:00 */')'' [0x01] [])
       \<noteq> Inr [0x01]
   \<and> ExtractKeySpaceID
         (fst (AnnotateIfDML keep_all
                 ''insert into t values ('/* vtgate:: keyspace_id:00 */')'' [[0x01]]
                 \<lparr>filteredReplicationUnfriendlyStatementsCount = 0,
                  filteredReplicationUnfriendlyStatementLogger = []\<rparr>))
       \<noteq> Inr [0x01]"
proof (intro conjI)
  show "IsDML ''insert into t values ('/* vtgate:: keyspace_id:00 */')''"
    by code_simp
  show "ExtractKeySpaceID
         (AddKeyspaceID ''insert into t values ('/* vtgate:: keyspace_id:00 */')'' [0x01] [])
       \<noteq> Inr [0x01]"
    by code_simp
  show "ExtractKeySpaceID
         (fst (AnnotateIfDML keep_all
                 ''insert into t values ('/* vtgate:: keyspace_id:00 */')'' [[0x01]]
                 \<lparr>filteredReplicationUnfriendlyStatementsCount = 0,
                  filteredReplicationUnfriendlyStatementLogger = []\<rparr>))
       \<noteq> Inr [0x01]"
    by code_simp
qed

text \<open>
  Claim C2. For every input \<open>s\<close>, \<open>ExtractKeySpaceID\<close> follows the decision table: when
  both the keyspace-id delimiter and the unfriendly sentinel occur in \<open>s\<close> it fails with
  the conflicting-annotations parse error; when only the delimiter occurs it decodes the
  captured text as hexadecimal and returns the bytes with a nil error, or a parse error
  wrapping the decoding failure; when only the sentinel occurs it fails with the
  replication-unfriendly error; when neither occurs it fails with the no-annotation
  parse error. The result is either bytes with a nil error (\<open>Inr\<close>) or nil bytes with one
  error (\<open>Inl\<close>).
\<close>

theorem ExtractKeySpaceID_decision_table:
  "ExtractKeySpaceID s =
     (if sublist ''/* vtgate:: keyspace_id:'' s
         \<and> sublist ''/* vtgate:: filtered_replication_unfriendly */'' s then
        Inl \<lparr>Kind = ExtractKeySpaceIDParseError,
             Message = ''Conflicting annotations in statement '' @ [CHR 0x27] @ s @ [CHR 0x27]\<rparr>
      else if sublist ''/* vtgate:: keyspace_id:'' s then
        (case DecodeString (fst (extractStringBetween s ''/* vtgate:: keyspace_id:'' '' '')) of
           Inr keyspaceID \<Rightarrow> Inr keyspaceID
         | Inl err \<Rightarrow>
             Inl \<lparr>Kind = ExtractKeySpaceIDParseError,
                  Message = ''Error parsing keyspace id value in statement: '' @ s
                              @ '' ('' @ hex_error_Error err @ '')''\<rparr>)
      else if sublist ''/* vtgate:: filtered_replication_unfriendly */'' s then
        Inl \<lparr>Kind = ExtractKeySpaceIDReplicationUnfriendlyError, Message = ''Statement: '' @ s\<rparr>
      else
        Inl \<lparr>Kind = ExtractKeySpaceIDParseError,
             Message = ''No annotation found in '' @ [CHR 0x27] @ s @ [CHR 0x27]\<rparr>)"
  by (subst ExtractKeySpaceID_table)
     (simp add: filteredReplicationUnfriendlyAnnotation_def split: sum.splits)

theorem ExtractKeySpaceID_decision_table_witness:
  "ExtractKeySpaceID ''UPDATE t SET x=1 /* vtgate:: keyspace_id:zz */''
     = Inl \<lparr>Kind = ExtractKeySpaceIDParseError,
            Message = ''Error parsing keyspace id value in statement: ''
                        @ ''UPDATE t SET x=1 /* vtgate:: keyspace_id:zz */''
                        @ '' ('' @ hex_error_Error (InvalidByteError CHR ''z'') @ '')''\<rparr>"
proof -
  let ?s = "''UPDATE t SET x=1 /* vtgate:: keyspace_id:zz */''"
  have k: "sublist ''/* vtgate:: keyspace_id:'' ?s" by code_simp
  have u: "\<not> sublist ''/* vtgate:: filtered_replication_unfriendly */'' ?s" by code_simp
  have d: "DecodeString (fst (extractStringBetween ?s ''/* vtgate:: keyspace_id:'' '' ''))
             = Inl (InvalidByteError CHR ''z'')" by code_simp
  show ?thesis
    by (subst ExtractKeySpaceID_decision_table) (simp only: k u d if_True if_False simp_thms sum.case)
qed

text \<open>
  Claim C3, as the code has it. The claim asks for one space before the unfriendly
  marker; \<open>AnnotateIfDML\<close> appends the constant
  \<open>filteredReplicationUnfriendlyAnnotation\<close> directly, and the constant starts with
  \<open>/*\<close>. So: for every DML statement \<open>s\<close> and every list of 0 or at least 2 keyspace
  ids, \<open>AnnotateIfDML\<close> returns \<open>s\<close> followed immediately by the literal
  \<open>/* vtgate:: filtered_replication_unfriendly */\<close>, with no character in between.
\<close>

theorem AnnotateIfDML_unfriendly_marker:
  "IsDML s \<Longrightarrow> length ids \<noteq> 1 \<Longrightarrow>
   fst (AnnotateIfDML Warningf s ids g) = s @ ''/* vtgate:: filtered_replication_unfriendly */''"
  by (simp add: AnnotateIfDML_def filteredReplicationUnfriendlyAnnotation_def)

theorem AnnotateIfDML_unfriendly_marker_witness:
  "IsDML ''insert x'' \<and> length [[0x0a], [0x0b :: byte]] \<noteq> 1 \<and>
   fst (AnnotateIfDML keep_all ''insert x'' [[0x0a], [0x0b]]
          \<lparr>filteredReplicationUnfriendlyStatementsCount = 0,
           filteredReplicationUnfriendlyStatementLogger = []\<rparr>)
     = ''insert x/* vtgate:: filtered_replication_unfriendly */''"
proof -
  have h: "IsDML ''insert x''" by code_simp
  have l: "length [[0x0a], [0x0b :: byte]] \<noteq> 1" by simp
  from AnnotateIfDML_unfriendly_marker [OF h l] h show ?thesis by simp
qed

text \<open>
  The claim C3 as it is written fails: on the DML statement \<open>insert x\<close> with no keyspace
  id the result is not the statement, one space and the marker.
\<close>

theorem AnnotateIfDML_unfriendly_marker_space_counterexample:
  "fst (AnnotateIfDML keep_all ''insert x'' []
          \<lparr>filteredReplicationUnfriendlyStatementsCount = 0,
           filteredReplicationUnfriendlyStatementLogger = []\<rparr>)
     \<noteq> ''insert x'' @ '' '' @ ''/* vtgate:: filtered_replication_unfriendly */''"
  by code_simp

text \<open>
  Claim C4. \<open>IsDML s\<close> is true exactly when, after the leading whitespace is skipped,
  the first whitespace-delimited token equals \<open>insert\<close>, \<open>update\<close> or \<open>delete\<close>
  without regard to case and a whitespace character follows it. It is false for the
  empty input, for an input of whitespace only, and for an input that has no
  whitespace after its leading whitespace (a single token). Whitespace is
  \<open>unicode.IsSpace\<close> on the runes of the input; equality without regard to case is
  equality under simple case folding, as \<open>strings.EqualFold\<close> has it.
\<close>

theorem IsDML_first_token:
  "(IsDML s \<longleftrightarrow> spec_IsDML s)
   \<and> \<not> IsDML []
   \<and> ((\<forall>r\<in>set (runes s). IsSpace r) \<longrightarrow> \<not> IsDML s)
   \<and> ((\<forall>r\<in>set (dropWhile IsSpace (runes s)). \<not> IsSpace r) \<longrightarrow> \<not> IsDML s)"
proof (intro conjI impI)
  show "IsDML s \<longleftrightarrow> spec_IsDML s" by (rule IsDML_spec)
  show "\<not> IsDML []" by (simp add: IsDML_spec spec_IsDML_def)
next
  assume "\<forall>r\<in>set (runes s). IsSpace r"
  then have dw: "dropWhile IsSpace (runes s) = []" by simp
  show "\<not> IsDML s" unfolding IsDML_spec spec_IsDML_def Let_def dw by simp
next
  assume "\<forall>r\<in>set (dropWhile IsSpace (runes s)). \<not> IsSpace r"
  then have dw: "dropWhile (\<lambda>r. \<not> IsSpace r) (dropWhile IsSpace (runes s)) = []" by simp
  show "\<not> IsDML s" unfolding IsDML_spec spec_IsDML_def Let_def dw by simp
qed

theorem IsDML_first_token_witness:
  "IsDML (''  UPDATE'' @ [CHR 0x09] @ ''t set x=1'')
   \<and> spec_IsDML (''  UPDATE'' @ [CHR 0x09] @ ''t set x=1'')
   \<and> list_all IsSpace (runes ''   '') \<and> \<not> IsDML ''   ''
   \<and> list_all (\<lambda>r. \<not> IsSpace r) (dropWhile IsSpace (runes '' insert''))
   \<and> \<not> IsDML '' insert''"
proof -
  have a: "IsDML (''  UPDATE'' @ [CHR 0x09] @ ''t set x=1'')" by code_simp
  have b: "list_all IsSpace (runes ''   '')" by code_simp
  have c: "list_all (\<lambda>r. \<not> IsSpace r) (dropWhile IsSpace (runes '' insert''))" by code_simp
  from IsDML_first_token [of "''  UPDATE'' @ [CHR 0x09] @ ''t set x=1''"] a
  have "spec_IsDML (''  UPDATE'' @ [CHR 0x09] @ ''t set x=1'')" by blast
  moreover from IsDML_first_token [of "''   ''"] b have "\<not> IsDML ''   ''"
    unfolding list_all_iff by blast
  moreover from IsDML_first_token [of "'' insert''"] c have "\<not> IsDML '' insert''"
    unfolding list_all_iff by blast
  ultimately show ?thesis using a b c by (simp only: simp_thms)
qed

text \<open>
  Claim C5. For every statement \<open>s\<close> that \<open>IsDML\<close> rejects and every list of keyspace
  ids, \<open>AnnotateIfDML\<close> returns \<open>s\<close> itself, with nothing appended.
\<close>

theorem AnnotateIfDML_not_DML_unchanged:
  "\<not> IsDML s \<Longrightarrow> fst (AnnotateIfDML Warningf s ids g) = s"
  by (simp add: AnnotateIfDML_def)

theorem AnnotateIfDML_not_DML_unchanged_witness:
  "\<not> IsDML ''select 1'' \<and>
   fst (AnnotateIfDML keep_all ''select 1'' [[0x0a], [0x0b]]
          \<lparr>filteredReplicationUnfriendlyStatementsCount = 0,
           filteredReplicationUnfriendlyStatementLogger = []\<rparr>) = ''select 1''"
proof -
  have h: "\<not> IsDML ''select 1''" by code_simp
  from AnnotateIfDML_not_DML_unchanged [OF h] h show ?thesis by simp
qed

text \<open>
  Claim C6. For every statement \<open>s\<close>, every keyspace id (the empty one too) and every
  trailing comment \<open>tc\<close>, \<open>AddKeyspaceID\<close> gives \<open>s\<close>, one space, the marker
  \<open>/* vtgate:: keyspace_id:\<close> with the lower-case hexadecimal encoding of the id and
  \<open> */\<close>, and then \<open>tc\<close> with no separator. The id is not validated: the equation has no
  condition on it.
\<close>

theorem AddKeyspaceID_format:
  "AddKeyspaceID s keyspaceID tc
     = s @ '' '' @ ''/* vtgate:: keyspace_id:'' @ spec_lowercase_hex keyspaceID @ '' */'' @ tc"
  by (simp add: AddKeyspaceID_def EncodeToString_spec)

theorem AddKeyspaceID_format_witness:
  "AddKeyspaceID ''insert x'' [0x1f, 0xa0] '' /* c */''
     = ''insert x /* vtgate:: keyspace_id:1fa0 */ /* c */''
   \<and> AddKeyspaceID ''insert x'' [] [] = ''insert x /* vtgate:: keyspace_id: */''"
proof -
  have "spec_lowercase_hex [0x1f, 0xa0] = ''1fa0''" by code_simp
  moreover have "spec_lowercase_hex [] = []" by code_simp
  ultimately show ?thesis
    using AddKeyspaceID_format [of "''insert x''" "[0x1f, 0xa0]" "'' /* c */''"]
      AddKeyspaceID_format [of "''insert x''" "[]" "[]"]
    by simp
qed

text \<open>
  Claim C7. In \<open>ExtractKeySpaceID\<close> the captured value starts right after the leftmost
  occurrence of the delimiter \<open>/* vtgate:: keyspace_id:\<close> and runs up to the next space,
  which is not part of it, or to the end of the string when no space follows;
  \<open>hasKeySpaceID\<close> is true exactly when the delimiter occurs in the input. Here
  \<open>s = a @ delimiter @ b\<close> with no shorter such \<open>a\<close> says that the leftmost occurrence
  starts after \<open>a\<close>.
\<close>

theorem ExtractKeySpaceID_capture:
  "snd (extractStringBetween s ''/* vtgate:: keyspace_id:'' '' '')
     = sublist ''/* vtgate:: keyspace_id:'' s
   \<and> (\<forall>a b. s = a @ ''/* vtgate:: keyspace_id:'' @ b
          \<and> (\<forall>a' b'. s = a' @ ''/* vtgate:: keyspace_id:'' @ b' \<longrightarrow> length a \<le> length a')
        \<longrightarrow> fst (extractStringBetween s ''/* vtgate:: keyspace_id:'' '' '')
              = takeWhile (\<lambda>c. c \<noteq> CHR '' '') b)"
proof (intro conjI allI impI)
  show "snd (extractStringBetween s ''/* vtgate:: keyspace_id:'' '' '')
          = sublist ''/* vtgate:: keyspace_id:'' s"
    by (rule extractStringBetween_found)
next
  fix a b
  assume h: "s = a @ ''/* vtgate:: keyspace_id:'' @ b
          \<and> (\<forall>a' b'. s = a' @ ''/* vtgate:: keyspace_id:'' @ b' \<longrightarrow> length a \<le> length a')"
  then have i: "Index s ''/* vtgate:: keyspace_id:'' = Some (length a)"
    by (intro Index_leftmost [where b = b]) blast+
  have "drop (length a + length ''/* vtgate:: keyspace_id:'') s = b"
    using h by simp
  with extractStringBetween_space [OF i]
  show "fst (extractStringBetween s ''/* vtgate:: keyspace_id:'' '' '')
          = takeWhile (\<lambda>c. c \<noteq> CHR '' '') b" by simp
qed

theorem ExtractKeySpaceID_capture_witness:
  "snd (extractStringBetween ''x /* vtgate:: keyspace_id:ab */ /* vtgate:: keyspace_id:cd */''
          ''/* vtgate:: keyspace_id:'' '' '')
   \<and> fst (extractStringBetween ''x /* vtgate:: keyspace_id:ab */ /* vtgate:: keyspace_id:cd */''
          ''/* vtgate:: keyspace_id:'' '' '') = ''ab''"
proof -
  let ?s = "''x /* vtgate:: keyspace_id:ab */ /* vtgate:: keyspace_id:cd */''"
  have i: "Index ?s ''/* vtgate:: keyspace_id:'' = Some 2" by code_simp
  have l: "\<forall>a' b'. ?s = a' @ ''/* vtgate:: keyspace_id:'' @ b' \<longrightarrow> length ''x '' \<le> length a'"
  proof (intro allI impI)
    fix a' b' assume "?s = a' @ ''/* vtgate:: keyspace_id:'' @ b'"
    from Index_Some_leftmost [OF i this] show "length ''x '' \<le> length a'" by simp
  qed
  have e: "?s = ''x '' @ ''/* vtgate:: keyspace_id:'' @ ''ab */ /* vtgate:: keyspace_id:cd */''"
    by simp
  have k: "sublist ''/* vtgate:: keyspace_id:'' ?s" by code_simp
  from ExtractKeySpaceID_capture [of ?s]
  have p1: "snd (extractStringBetween ?s ''/* vtgate:: keyspace_id:'' '' '')
              = sublist ''/* vtgate:: keyspace_id:'' ?s"
    and p2: "\<forall>a b. ?s = a @ ''/* vtgate:: keyspace_id:'' @ b
          \<and> (\<forall>a' b'. ?s = a' @ ''/* vtgate:: keyspace_id:'' @ b' \<longrightarrow> length a \<le> length a')
        \<longrightarrow> fst (extractStringBetween ?s ''/* vtgate:: keyspace_id:'' '' '')
              = takeWhile (\<lambda>c. c \<noteq> CHR '' '') b"
    by blast+
  from p2 e l have "fst (extractStringBetween ?s ''/* vtgate:: keyspace_id:'' '' '')
              = takeWhile (\<lambda>c. c \<noteq> CHR '' '') ''ab */ /* vtgate:: keyspace_id:cd */''"
    by blast
  moreover have "takeWhile (\<lambda>c. c \<noteq> CHR '' '') ''ab */ /* vtgate:: keyspace_id:cd */'' = ''ab''"
    by simp
  ultimately show ?thesis using p1 k by (simp only: simp_thms)
qed

text \<open>
  Claim C8. A call of \<open>AnnotateIfDML\<close> on the unfriendly path (a DML statement with 0 or
  at least 2 keyspace ids) adds exactly 1 to the counter, whatever the throttled logger
  \<open>Warningf\<close> does with its own state, and gives the logger one message; on the two
  other paths (not DML, or exactly one id, which goes through \<open>AddKeyspaceID\<close>) the
  counter and the logger are left as they were. \<open>AddKeyspaceID\<close>, \<open>IsDML\<close> and \<open>ExtractKeySpaceID\<close> mention neither package
  variable in the source: they are functions of their arguments alone in this model, so
  they change no counter and log nothing.
\<close>

theorem AnnotateIfDML_counter:
  "filteredReplicationUnfriendlyStatementsCount (snd (AnnotateIfDML Warningf s ids g))
     = (if IsDML s \<and> length ids \<noteq> 1
        then filteredReplicationUnfriendlyStatementsCount g + 1
        else filteredReplicationUnfriendlyStatementsCount g)
   \<and> (\<not> (IsDML s \<and> length ids \<noteq> 1) \<longrightarrow> snd (AnnotateIfDML Warningf s ids g) = g)
   \<and> (IsDML s \<and> length ids \<noteq> 1 \<longrightarrow>
        filteredReplicationUnfriendlyStatementLogger (snd (AnnotateIfDML Warningf s ids g))
          = Warningf ''filtered-replication-unfriendly SQL statement detected: %q'' [s]
              (filteredReplicationUnfriendlyStatementLogger g))"
  by (simp add: AnnotateIfDML_def)

theorem AnnotateIfDML_counter_witness:
  "filteredReplicationUnfriendlyStatementsCount
     (snd (AnnotateIfDML keep_all ''insert x'' []
        \<lparr>filteredReplicationUnfriendlyStatementsCount = 41,
         filteredReplicationUnfriendlyStatementLogger = [(''earlier message'', [])]\<rparr>)) = 42
   \<and> snd (AnnotateIfDML keep_all ''insert x'' [[0x0a]]
        \<lparr>filteredReplicationUnfriendlyStatementsCount = 41,
         filteredReplicationUnfriendlyStatementLogger = [(''earlier message'', [])]\<rparr>)
      = \<lparr>filteredReplicationUnfriendlyStatementsCount = 41,
         filteredReplicationUnfriendlyStatementLogger = [(''earlier message'', [])]\<rparr>"
proof -
  have h: "IsDML ''insert x''" by code_simp
  show ?thesis
    using h
      AnnotateIfDML_counter [of keep_all "''insert x''" "[]"
        "\<lparr>filteredReplicationUnfriendlyStatementsCount = 41,
         filteredReplicationUnfriendlyStatementLogger = [(''earlier message'', [])]\<rparr>"]
      AnnotateIfDML_counter [of keep_all "''insert x''" "[[0x0a]]"
        "\<lparr>filteredReplicationUnfriendlyStatementsCount = 41,
         filteredReplicationUnfriendlyStatementLogger = [(''earlier message'', [])]\<rparr>"]
    by simp
qed

text \<open>
  Claim C9. Every error that \<open>ExtractKeySpaceID\<close> returns has the kind
  \<open>ExtractKeySpaceIDParseError\<close> or \<open>ExtractKeySpaceIDReplicationUnfriendlyError\<close>, so the
  method \<open>Error\<close> never reaches its default branch, which would end the process, on it.
\<close>

theorem ExtractKeySpaceID_error_kinds:
  "ExtractKeySpaceID s = Inl e \<Longrightarrow>
   (Kind e = ExtractKeySpaceIDParseError \<or> Kind e = ExtractKeySpaceIDReplicationUnfriendlyError)
     \<and> Error e \<noteq> Inl Fatalf"
  by (auto simp: ExtractKeySpaceID_def Error_def case_prod_unfold Let_def
           split: if_splits sum.splits)

theorem ExtractKeySpaceID_error_kinds_witness:
  "ExtractKeySpaceID ''DELETE FROM t /* vtgate:: filtered_replication_unfriendly */''
     = Inl \<lparr>Kind = 1, Message = ''Statement: DELETE FROM t /* vtgate:: filtered_replication_unfriendly */''\<rparr>
   \<and> Error \<lparr>Kind = 1, Message = ''Statement: DELETE FROM t /* vtgate:: filtered_replication_unfriendly */''\<rparr>
        \<noteq> Inl Fatalf"
proof -
  have h: "ExtractKeySpaceID ''DELETE FROM t /* vtgate:: filtered_replication_unfriendly */''
     = Inl \<lparr>Kind = 1, Message = ''Statement: DELETE FROM t /* vtgate:: filtered_replication_unfriendly */''\<rparr>"
    by code_simp
  from ExtractKeySpaceID_error_kinds [OF h] h show ?thesis by simp
qed

text \<open>
  Claim C10. \<open>AddKeyspaceID\<close> appends the keyspace marker without looking at the
  statement: when the statement already contains the unfriendly sentinel, the annotated
  statement has both markers, and \<open>ExtractKeySpaceID\<close> fails on it with the
  conflicting-annotations parse error, for every keyspace id.
\<close>

theorem AddKeyspaceID_conflict:
  "sublist ''/* vtgate:: filtered_replication_unfriendly */'' s \<Longrightarrow>
   ExtractKeySpaceID (AddKeyspaceID s keyspaceID [])
     = Inl \<lparr>Kind = ExtractKeySpaceIDParseError,
            Message = ''Conflicting annotations in statement '' @ [CHR 0x27]
                        @ AddKeyspaceID s keyspaceID [] @ [CHR 0x27]\<rparr>"
proof -
  assume a: "sublist ''/* vtgate:: filtered_replication_unfriendly */'' s"
  have "AddKeyspaceID s keyspaceID []
          = (s @ '' '') @ ''/* vtgate:: keyspace_id:'' @ (EncodeToString keyspaceID @ '' */'')"
    by (simp add: AddKeyspaceID_def)
  then have k: "sublist ''/* vtgate:: keyspace_id:'' (AddKeyspaceID s keyspaceID [])"
    unfolding sublist_def by blast
  have "sublist ''/* vtgate:: filtered_replication_unfriendly */''
          (s @ ('' /* vtgate:: keyspace_id:'' @ EncodeToString keyspaceID @ '' */''))"
    using a by (simp only: sublist_append simp_thms)
  then have u: "sublist filteredReplicationUnfriendlyAnnotation (AddKeyspaceID s keyspaceID [])"
    by (simp add: AddKeyspaceID_def filteredReplicationUnfriendlyAnnotation_def)
  show ?thesis
    by (subst ExtractKeySpaceID_table) (simp only: k u if_True)
qed

theorem AddKeyspaceID_conflict_witness:
  "sublist ''/* vtgate:: filtered_replication_unfriendly */''
     ''update t set x=1/* vtgate:: filtered_replication_unfriendly */''
   \<and> ExtractKeySpaceID
       (AddKeyspaceID ''update t set x=1/* vtgate:: filtered_replication_unfriendly */'' [0xab] [])
     = Inl \<lparr>Kind = ExtractKeySpaceIDParseError,
            Message = ''Conflicting annotations in statement '' @ [CHR 0x27]
              @ AddKeyspaceID ''update t set x=1/* vtgate:: filtered_replication_unfriendly */'' [0xab] []
              @ [CHR 0x27]\<rparr>"
proof -
  have h: "sublist ''/* vtgate:: filtered_replication_unfriendly */''
     ''update t set x=1/* vtgate:: filtered_replication_unfriendly */''" by code_simp
  from AddKeyspaceID_conflict [OF h, of "[0xab]"] h show ?thesis by (simp only: simp_thms)
qed


end
